theory Spec2Isabelle
  imports Main "HOL-Library.Char_ord" "HOL-Library.List_Lexorder"
begin

section \<open>Demultiplexing full-length read counts by isoform and primer\<close>

text \<open>
  A shallow embedding of \<^verbatim>\<open>post_isoseq_cluster/demux_isoseq_with_genome.py\<close>:
  the two table readers \<^verbatim>\<open>read_classify_csv\<close> and \<^verbatim>\<open>read_read_stat\<close> and the
  orchestration \<^verbatim>\<open>main\<close>, which resolves the primer columns and writes the count
  matrix. Locating the files (\<^verbatim>\<open>link_files\<close>), the command line, and the lexing of
  delimited text and sequence records are outside the embedding: a table enters as its
  header and its rows of cells, the mapped-read file as the list of its record ids.
\<close>

subsection \<open>Errors\<close>

text \<open>
  Every failure of the modelled code is Python's \<^verbatim>\<open>KeyError\<close>, raised by a subscript
  on a mapping that lacks the key; it carries the key. The three kinds of the design
  are told apart by where the subscript stands: a field of a table row
  (\<^verbatim>\<open>r['primer']\<close>, a format error), a read id in the classification lookup
  (\<^verbatim>\<open>classify_info[r['id']]\<close>, a missing read), an isoform in the count matrix
  (\<^verbatim>\<open>info[pbid]\<close>).
\<close>

datatype error = KeyError string

subsection \<open>Tables as \<^verbatim>\<open>csv.DictReader\<close> yields them\<close>

text \<open>
  A delimited file is its header (the field names) and its data rows, each a list of
  cells. \<^verbatim>\<open>DictReader\<close> skips rows without any cell and turns every other row into
  \<^verbatim>\<open>dict(zip(fieldnames, row))\<close>; with a repeated field name the later cell wins.
  Cells beyond the header go under the key \<^verbatim>\<open>None\<close>, which the program never reads, so
  the model drops them. A row shorter than the header gets the value \<^verbatim>\<open>None\<close> for the
  fields it lacks; the model has no such value, so it stands for the reader on tables
  with no short row (\<open>full_rows\<close>).
\<close>

record table =
  fieldnames :: "string list"
  body :: "string list list"

type_synonym row = "string \<rightharpoonup> string"

definition dict_zip :: "string list \<Rightarrow> string list \<Rightarrow> row" where
  "dict_zip fs cells = map_of (rev (zip fs cells))"

definition DictReader :: "table \<Rightarrow> row list" where
  "DictReader t = map (dict_zip (fieldnames t)) (filter (\<lambda>cells. cells \<noteq> []) (body t))"

definition full_rows :: "table \<Rightarrow> bool" where
  "full_rows t = list_all (\<lambda>cells. length (fieldnames t) \<le> length cells) (body t)"

subsection \<open>\<^verbatim>\<open>read_classify_csv\<close>\<close>

text \<open>
  \<^verbatim>\<open>
  info = {}
  primer_list = set()
  for r in DictReader(open(classify_csv), delimiter=','):
      if r['primer']=='NA': continue # skip nFL
      if 'primer_index' in r: # isoseq3 version
          p = r['primer_index']
      else: # isoseq1 or 2
          p = r['primer']
      primer_list.add(p)
      info[r['id']] = p
  return primer_list, info
  \<close>
  The lookup \<open>info\<close> is only ever subscripted, so it is a map; the primer set is a set.
\<close>

type_synonym classify_info = "string \<rightharpoonup> string"

fun classify_rows :: "row list \<Rightarrow> string set \<times> classify_info \<Rightarrow> error + string set \<times> classify_info" where
  "classify_rows [] (primer_list, info) = Inr (primer_list, info)"
| "classify_rows (r # rs) (primer_list, info) =
     (case r ''primer'' of
        None \<Rightarrow> Inl (KeyError ''primer'')
      | Some pr \<Rightarrow>
          if pr = ''NA'' then classify_rows rs (primer_list, info)
          else
            let p = (case r ''primer_index'' of Some pi \<Rightarrow> pi | None \<Rightarrow> pr) in
            (case r ''id'' of
               None \<Rightarrow> Inl (KeyError ''id'')
             | Some i \<Rightarrow> classify_rows rs (insert p primer_list, info(i \<mapsto> p))))"

definition read_classify_csv :: "table \<Rightarrow> error + string set \<times> classify_info" where
  "read_classify_csv classify_csv = classify_rows (DictReader classify_csv) ({}, Map.empty)"

subsection \<open>\<^verbatim>\<open>read_read_stat\<close>\<close>

text \<open>
  \<^verbatim>\<open>
  info = defaultdict(lambda: Counter())
  for r in DictReader(open(read_stat), delimiter='\t'):
      if r['is_fl'] == 'Y':
          p = classify_info[r['id']]
          info[r['pbid']][p] += 1
  return dict(info)
  \<close>
  Inside the loop a missing isoform gets a fresh \<^verbatim>\<open>Counter\<close> and a missing primer
  counts from 0. The function returns a plain \<^verbatim>\<open>dict\<close> of counters: a later
  subscript with an isoform it lacks raises, while a counter read at a primer it
  lacks gives 0 (and stores nothing).
\<close>

type_synonym counter = "string \<rightharpoonup> nat"
type_synonym count_matrix = "string \<rightharpoonup> counter"

definition counter_get :: "counter \<Rightarrow> string \<Rightarrow> nat" where
  "counter_get c p = (case c p of None \<Rightarrow> 0 | Some n \<Rightarrow> n)"

definition increment :: "count_matrix \<Rightarrow> string \<Rightarrow> string \<Rightarrow> count_matrix" where
  "increment info pbid p =
     (let c = (case info pbid of None \<Rightarrow> Map.empty | Some c \<Rightarrow> c)
      in info(pbid \<mapsto> c(p \<mapsto> counter_get c p + 1)))"

fun read_stat_rows :: "row list \<Rightarrow> classify_info \<Rightarrow> count_matrix \<Rightarrow> error + count_matrix" where
  "read_stat_rows [] classify_info info = Inr info"
| "read_stat_rows (r # rs) classify_info info =
     (case r ''is_fl'' of
        None \<Rightarrow> Inl (KeyError ''is_fl'')
      | Some fl \<Rightarrow>
          if fl = ''Y'' then
            (case r ''id'' of
               None \<Rightarrow> Inl (KeyError ''id'')
             | Some i \<Rightarrow>
                 (case classify_info i of
                    None \<Rightarrow> Inl (KeyError i)
                  | Some p \<Rightarrow>
                      (case r ''pbid'' of
                         None \<Rightarrow> Inl (KeyError ''pbid'')
                       | Some pbid \<Rightarrow> read_stat_rows rs classify_info (increment info pbid p))))
          else read_stat_rows rs classify_info info)"

definition read_read_stat :: "table \<Rightarrow> classify_info \<Rightarrow> error + count_matrix" where
  "read_read_stat read_stat classify_info =
     read_stat_rows (DictReader read_stat) classify_info Map.empty"

subsection \<open>The mapping that is iterated\<close>

text \<open>
  \<^verbatim>\<open>primer_names\<close> is the one mapping whose keys are enumerated (by \<^verbatim>\<open>keys()\<close> for
  the header, by \<^verbatim>\<open>for p in primer_names\<close> for the cells of every row; the defaults
  by \<^verbatim>\<open>iteritems()\<close>). It is an association list with one pair per key, in the
  order the keys were inserted: a new key goes to the end, an assignment to a key
  already there keeps its place.
\<close>

type_synonym pdict = "(string \<times> string) list"

definition contains :: "pdict \<Rightarrow> string \<Rightarrow> bool" where
  "contains d k = (k \<in> set (map fst d))"

fun setitem :: "pdict \<Rightarrow> string \<Rightarrow> string \<Rightarrow> pdict" where
  "setitem [] k v = [(k, v)]"
| "setitem ((k', v') # d) k v =
     (if k' = k then (k, v) # d else (k', v') # setitem d k v)"

text \<open>
  The order in which a mapping enumerates its keys belongs to the runtime, not to this
  file. The source is Python 2 (\<^verbatim>\<open>print >>\<close>, \<^verbatim>\<open>iteritems\<close>), whose built-in
  \<^verbatim>\<open>dict\<close> enumerates in an order of its own, promising only that each key comes once
  and that the enumerations of an unchanged mapping agree. The enumeration is
  therefore a parameter \<open>enum\<close> of the model: it takes the keys in their order of
  insertion and gives them in the order of iteration.
\<close>

type_synonym key_order = "string list \<Rightarrow> string list"

definition is_enumeration :: "key_order \<Rightarrow> bool" where
  "is_enumeration enum = (\<forall>ks. distinct ks \<longrightarrow> distinct (enum ks) \<and> set (enum ks) = set ks)"

text \<open>
  Modelled from the spec: the enumeration the specification assumes, "Column order =
  iteration order of \<^verbatim>\<open>primer_names\<close> (insertion order)".
\<close>

definition insertion_order :: key_order where
  "insertion_order ks = ks"

definition keys :: "key_order \<Rightarrow> pdict \<Rightarrow> string list" where
  "keys enum d = enum (map fst d)"

definition iteritems :: "key_order \<Rightarrow> pdict \<Rightarrow> (string \<times> string) list" where
  "iteritems enum d = List.map_filter (\<lambda>k. map_option (Pair k) (map_of d k)) (keys enum d)"

subsection \<open>Text written to the output\<close>

text \<open>
  \<^verbatim>\<open>",".join(xs)\<close>, and \<^verbatim>\<open>"{0}".format(n)\<close> for a count \<open>n\<close>: its decimal digits.
\<close>

fun join :: "string \<Rightarrow> string list \<Rightarrow> string" where
  "join sep [] = []"
| "join sep [x] = x"
| "join sep (x # y # ys) = x @ sep @ join sep (y # ys)"

definition digit :: "nat \<Rightarrow> char" where
  "digit n = char_of (48 + n)"

fun str_nat :: "nat \<Rightarrow> string" where
  "str_nat n = (if n < 10 then [digit n] else str_nat (n div 10) @ [digit (n mod 10)])"

declare str_nat.simps [simp del]

subsection \<open>\<^verbatim>\<open>main\<close>\<close>

text \<open>
  With the three inputs given directly (\<^verbatim>\<open>job_dir\<close> is \<^verbatim>\<open>None\<close>, the files exist):
  \<^verbatim>\<open>
  primer_list, classify_csv = read_classify_csv(classify_csv)
  info = read_read_stat(read_stat, classify_csv)

  primer_list = list(primer_list)
  primer_list.sort()
  # if primer names are not given, just use as is...
  tmp_primer_names = dict((x,x) for x in primer_list)
  if primer_names is None:
      primer_names = tmp_primer_names
  else:
      for k,v in tmp_primer_names.iteritems():
          if k not in primer_names:
              primer_names[k] = v

  f = open(output_filename, 'w')
  f.write("id,{0}\n".format(",".join(primer_names.keys())))
  for r in SeqIO.parse(open(mapped_fastq), 'fastq'):
      pbid = r.id.split('|')[0]
      f.write(pbid)
      for p in primer_names:
          f.write(",{0}".format(info[pbid][p]))
      f.write("\n")
  f.close()
  \<close>
\<close>

fun fill_defaults :: "(string \<times> string) list \<Rightarrow> pdict \<Rightarrow> pdict" where
  "fill_defaults [] primer_names = primer_names"
| "fill_defaults ((k, v) # items) primer_names =
     fill_defaults items
       (if \<not> contains primer_names k then setitem primer_names k v else primer_names)"

text \<open>
  The mapping that \<^verbatim>\<open>primer_names\<close> names once the defaults are in. With an override
  it is the caller's own object, changed in place.
\<close>

definition resolve_primer_names :: "key_order \<Rightarrow> string set \<Rightarrow> pdict option \<Rightarrow> pdict" where
  "resolve_primer_names enum primer_list primer_names =
     (let tmp_primer_names = map (\<lambda>x. (x, x)) (sorted_list_of_set primer_list)
      in case primer_names of
           None \<Rightarrow> tmp_primer_names
         | Some d \<Rightarrow> fill_defaults (iteritems enum tmp_primer_names) d)"

definition header :: "key_order \<Rightarrow> pdict \<Rightarrow> string" where
  "header enum primer_names = ''id,'' @ join '','' (keys enum primer_names) @ ''\<newline>''"

definition pbid_of :: "string \<Rightarrow> string" where
  "pbid_of rid = takeWhile (\<lambda>c. c \<noteq> CHR ''|'') rid"

text \<open>
  The two writing loops thread the content \<open>f\<close> of the output file. A failed
  subscript \<^verbatim>\<open>info[pbid]\<close> ends them with the error and what was written so far.
\<close>

fun write_cells :: "count_matrix \<Rightarrow> string \<Rightarrow> string list \<Rightarrow> string \<Rightarrow> error \<times> string + string" where
  "write_cells info pbid [] f = Inr f"
| "write_cells info pbid (p # ps) f =
     (case info pbid of
        None \<Rightarrow> Inl (KeyError pbid, f)
      | Some c \<Rightarrow> write_cells info pbid ps (f @ '','' @ str_nat (counter_get c p)))"

fun write_rows :: "count_matrix \<Rightarrow> string list \<Rightarrow> string list \<Rightarrow> string \<Rightarrow> error \<times> string + string" where
  "write_rows info cols [] f = Inr f"
| "write_rows info cols (rid # rids) f =
     (let pbid = pbid_of rid in
      case write_cells info pbid cols (f @ pbid) of
        Inl e \<Rightarrow> Inl e
      | Inr f' \<Rightarrow> write_rows info cols rids (f' @ ''\<newline>''))"

text \<open>
  What a run leaves behind: the caller's override mapping (\<open>None\<close> when the caller
  passed none), the content of the output file (\<open>None\<close> when it was never opened) and
  the exception that ended the run, if any.
\<close>

record outcome =
  names_after :: "pdict option"
  written :: "string option"
  raised :: "error option"

definition main :: "key_order \<Rightarrow> string list \<Rightarrow> table \<Rightarrow> table \<Rightarrow> pdict option \<Rightarrow> outcome" where
  "main enum mapped_fastq read_stat classify_csv primer_names =
     (case read_classify_csv classify_csv of
        Inl e \<Rightarrow> \<lparr>names_after = primer_names, written = None, raised = Some e\<rparr>
      | Inr (primer_list, classify_info) \<Rightarrow>
          (case read_read_stat read_stat classify_info of
             Inl e \<Rightarrow> \<lparr>names_after = primer_names, written = None, raised = Some e\<rparr>
           | Inr info \<Rightarrow>
               (let names = resolve_primer_names enum primer_list primer_names;
                    after = map_option (\<lambda>_. names) primer_names
                in case write_rows info (keys enum names) mapped_fastq (header enum names) of
                     Inl (e, f) \<Rightarrow> \<lparr>names_after = after, written = Some f, raised = Some e\<rparr>
                   | Inr f \<Rightarrow> \<lparr>names_after = after, written = Some f, raised = None\<rparr>)))"

subsection \<open>The specification's notions\<close>

text \<open>
  The token of a classification row in the specification's words: "if the row has a
  \<^verbatim>\<open>primer_index\<close> field, use it; otherwise use the \<^verbatim>\<open>primer\<close> field". A row
  "contributes" unless its primer field equals \<^verbatim>\<open>"NA"\<close>, and the lookup the
  specification asks for maps a read id to the token of the last contributing row
  with that id.
\<close>

definition spec_token :: "row \<Rightarrow> string" where
  "spec_token r =
     (case r ''primer_index'' of
        Some pi \<Rightarrow> pi
      | None \<Rightarrow> (case r ''primer'' of Some pr \<Rightarrow> pr | None \<Rightarrow> []))"

definition not_NA :: "row \<Rightarrow> bool" where
  "not_NA r = (r ''primer'' \<noteq> Some ''NA'')"

definition spec_lookup :: "row list \<Rightarrow> string \<Rightarrow> string option" where
  "spec_lookup rows x =
     (let hits = filter (\<lambda>r. not_NA r \<and> r ''id'' = Some x) rows
      in if hits = [] then None else Some (spec_token (last hits)))"

text \<open>
  A read-status row is full-length when its \<^verbatim>\<open>is_fl\<close> field is \<^verbatim>\<open>"Y"\<close>; it is a
  missing read when it is full-length and the lookup lacks its id. The reads the sum
  invariant counts for an isoform: full-length, of that isoform, known to the lookup.
\<close>

definition is_fl :: "row \<Rightarrow> bool" where
  "is_fl r = (r ''is_fl'' = Some ''Y'')"

definition missing_read :: "classify_info \<Rightarrow> row \<Rightarrow> bool" where
  "missing_read classify_info r =
     (is_fl r \<and> (case r ''id'' of None \<Rightarrow> False | Some i \<Rightarrow> classify_info i = None))"

definition fl_reads_of :: "classify_info \<Rightarrow> row list \<Rightarrow> string \<Rightarrow> row list" where
  "fl_reads_of classify_info rows x =
     filter (\<lambda>r. is_fl r \<and> r ''pbid'' = Some x \<and>
                 (case r ''id'' of None \<Rightarrow> False | Some i \<Rightarrow> classify_info i \<noteq> None)) rows"

text \<open>
  The count the matrix holds for an isoform and a primer, "absent pairs implicitly
  zero", and the text of one complete output row: the isoform, then a comma and the
  decimal count for each column, then the line end.
\<close>

definition cell :: "count_matrix \<Rightarrow> string \<Rightarrow> string \<Rightarrow> nat" where
  "cell info pbid p = (case info pbid of None \<Rightarrow> 0 | Some c \<Rightarrow> counter_get c p)"

definition row_line :: "string \<Rightarrow> nat list \<Rightarrow> string" where
  "row_line pbid ns = pbid @ concat (map (\<lambda>n. '','' @ str_nat n) ns) @ ''\<newline>''"

text \<open>The input contract of a table: no short row, and the named fields in the header.\<close>

definition has_fields :: "table \<Rightarrow> string list \<Rightarrow> bool" where
  "has_fields t fs = (full_rows t \<and> list_all (\<lambda>k. k \<in> set (fieldnames t)) fs)"

text \<open>A caller's override, if any, is a mapping: no key twice.\<close>

definition is_mapping :: "pdict option \<Rightarrow> bool" where
  "is_mapping primer_names =
     (case primer_names of None \<Rightarrow> True | Some d \<Rightarrow> distinct (map fst d))"

subsection \<open>Sample inputs\<close>

text \<open>
  The example scenario of the specification: reads \<^verbatim>\<open>r1\<close>, \<^verbatim>\<open>r2\<close> with primers 2 and
  3, \<^verbatim>\<open>r3\<close> not full-length in the classification report; one isoform.
\<close>

definition classify_12 :: table where
  "classify_12 =
     \<lparr>fieldnames = [''id'', ''strand'', ''primer''],
      body = [[''r1'', ''+'', ''2''], [''r2'', ''+'', ''3''], [''r3'', ''+'', ''NA'']]\<rparr>"

definition read_stat_12 :: table where
  "read_stat_12 =
     \<lparr>fieldnames = [''id'', ''length'', ''is_fl'', ''stat'', ''pbid''],
      body = [[''r1'', ''1641'', ''Y'', ''unique'', ''PB.1.1''],
              [''r2'', ''1648'', ''Y'', ''unique'', ''PB.1.1''],
              [''r2'', ''1648'', ''N'', ''unique'', ''PB.1.1'']]\<rparr>"

text \<open>The same with the full-length row of \<^verbatim>\<open>r3\<close> that the scenario lists.\<close>

definition read_stat_123 :: table where
  "read_stat_123 =
     \<lparr>fieldnames = [''id'', ''length'', ''is_fl'', ''stat'', ''pbid''],
      body = [[''r1'', ''1641'', ''Y'', ''unique'', ''PB.1.1''],
              [''r2'', ''1648'', ''Y'', ''unique'', ''PB.1.1''],
              [''r3'', ''1650'', ''Y'', ''unique'', ''PB.1.1'']]\<rparr>"

text \<open>A report in the newer format, with a read id that occurs twice.\<close>

definition classify_dup :: table where
  "classify_dup =
     \<lparr>fieldnames = [''id'', ''primer_index'', ''primer''],
      body = [[''m1/1/ccs'', ''0--7'', ''Clontech--bc7''],
              [''m1/2/ccs'', ''NA'', ''NA''],
              [''m1/1/ccs'', ''0--6'', ''Clontech--bc6'']]\<rparr>"



section \<open>Properties\<close>

subsection \<open>Rows of a table that keeps its input contract\<close>

lemma dict_zip_dom:
  assumes "length fs \<le> length cells"
  shows "(dict_zip fs cells k \<noteq> None) = (k \<in> set fs)"
proof -
  from assms have "map fst (zip fs cells) = fs"
    by (simp add: map_fst_zip_take)
  then have "fst ` set (rev (zip fs cells)) = set fs"
    by (metis set_map set_rev)
  then show ?thesis unfolding dict_zip_def by (simp add: map_of_eq_None_iff)
qed

lemma DictReader_fields:
  assumes full: "full_rows t" and r: "r \<in> set (DictReader t)"
  shows "(r k \<noteq> None) = (k \<in> set (fieldnames t))"
proof -
  from r obtain cells where c: "cells \<in> set (body t)" and eq: "r = dict_zip (fieldnames t) cells"
    by (auto simp: DictReader_def)
  from full c have "length (fieldnames t) \<le> length cells"
    by (simp add: full_rows_def list_all_iff)
  then show ?thesis unfolding eq by (rule dict_zip_dom)
qed

lemma has_fields_row:
  assumes "has_fields t fs" and "k \<in> set fs" and r: "r \<in> set (DictReader t)"
  shows "r k \<noteq> None"
proof -
  from assms(1,2) have full: "full_rows t" and "k \<in> set (fieldnames t)"
    by (auto simp: has_fields_def list_all_iff)
  then show ?thesis using DictReader_fields[OF full r, of k] by blast
qed


lemma has_fields_read_stat:
  assumes "has_fields t [''id'', ''is_fl'', ''pbid'']"
  shows "\<forall>r\<in>set (DictReader t). r ''is_fl'' \<noteq> None \<and> r ''id'' \<noteq> None \<and> r ''pbid'' \<noteq> None"
  using has_fields_row[OF assms] by simp

subsection \<open>The classification pass\<close>

text \<open>What a returning pass did with its first row.\<close>

lemma classify_rows_ConsE:
  assumes "classify_rows (r # rs) (ps0, info0) = Inr (ps, info)"
  obtains (skipped) "\<not> not_NA r" and "classify_rows rs (ps0, info0) = Inr (ps, info)"
  | (recorded) i where "not_NA r" and "r ''id'' = Some i"
      and "classify_rows rs (insert (spec_token r) ps0, info0(i \<mapsto> spec_token r)) = Inr (ps, info)"
proof -
  from assms obtain pr where pr: "r ''primer'' = Some pr"
    by (cases "r ''primer''") auto
  show thesis
  proof (cases "pr = ''NA''")
    case True
    with pr assms have "classify_rows rs (ps0, info0) = Inr (ps, info)" by simp
    moreover have "\<not> not_NA r" using pr True by (simp add: not_NA_def)
    ultimately show thesis by (rule skipped[rotated])
  next
    case False
    with pr assms obtain i where i: "r ''id'' = Some i"
      by (cases "r ''id''") (auto simp: Let_def)
    have tok: "(case r ''primer_index'' of Some pi \<Rightarrow> pi | None \<Rightarrow> pr) = spec_token r"
      using pr by (simp add: spec_token_def split: option.splits)
    from pr False i assms tok
    have "classify_rows rs (insert (spec_token r) ps0, info0(i \<mapsto> spec_token r)) = Inr (ps, info)"
      by (simp add: Let_def)
    moreover have "not_NA r" using pr False by (simp add: not_NA_def)
    ultimately show thesis using i by (intro recorded)
  qed
qed

lemma spec_lookup_Nil: "spec_lookup [] = Map.empty"
  by (rule ext) (simp add: spec_lookup_def)

lemma spec_lookup_skip:
  "\<not> (not_NA r \<and> r ''id'' = Some x) \<Longrightarrow> spec_lookup (r # rs) x = spec_lookup rs x"
  by (simp add: spec_lookup_def)

lemma spec_lookup_hit:
  "not_NA r \<Longrightarrow> r ''id'' = Some x \<Longrightarrow>
   spec_lookup (r # rs) x = (case spec_lookup rs x of None \<Rightarrow> Some (spec_token r) | Some v \<Rightarrow> Some v)"
  by (simp add: spec_lookup_def Let_def)


lemma spec_lookup_dom:
  "dom (spec_lookup rows) = {i. \<exists>r\<in>set rows. not_NA r \<and> r ''id'' = Some i}"
  by (auto simp: spec_lookup_def Let_def dom_def filter_empty_conv split: if_splits)

lemma spec_lookup_ran:
  assumes "spec_lookup rows x = Some p"
  shows "p \<in> spec_token ` {r \<in> set rows. not_NA r}"
proof -
  let ?hits = "filter (\<lambda>r. not_NA r \<and> r ''id'' = Some x) rows"
  from assms have ne: "?hits \<noteq> []" and p: "p = spec_token (last ?hits)"
    by (auto simp: spec_lookup_def Let_def split: if_splits)
  from ne have "last ?hits \<in> set ?hits" by (rule last_in_set)
  then show ?thesis using p by auto
qed

lemma classify_rows_lookup:
  "classify_rows rows (ps0, info0) = Inr (ps, info) \<Longrightarrow> info = info0 ++ spec_lookup rows"
proof (induction rows arbitrary: ps0 info0)
  case Nil
  then show ?case by (simp add: spec_lookup_Nil)
next
  case (Cons r rows)
  from Cons.prems show ?case
  proof (cases rule: classify_rows_ConsE)
    case skipped
    then have "spec_lookup (r # rows) = spec_lookup rows"
      by (intro ext spec_lookup_skip) simp
    with Cons.IH[OF skipped(2)] show ?thesis by simp
  next
    case (recorded i)
    note IH = Cons.IH[OF recorded(3)]
    show ?thesis
    proof (rule ext)
      fix x
      show "info x = (info0 ++ spec_lookup (r # rows)) x"
      proof (cases "x = i")
        case True
        then show ?thesis using IH recorded(1,2)
          by (simp add: map_add_def spec_lookup_hit split: option.splits)
      next
        case False
        then have "spec_lookup (r # rows) x = spec_lookup rows x"
          using recorded(2) by (intro spec_lookup_skip) auto
        then show ?thesis using IH False by (simp add: map_add_def split: option.splits)
      qed
    qed
  qed
qed

lemma classify_rows_primers:
  "classify_rows rows (ps0, info0) = Inr (ps, info) \<Longrightarrow>
   ps = ps0 \<union> spec_token ` {r \<in> set rows. not_NA r}"
proof (induction rows arbitrary: ps0 info0)
  case Nil
  then show ?case by simp
next
  case (Cons r rows)
  from Cons.prems show ?case
  proof (cases rule: classify_rows_ConsE)
    case skipped
    with Cons.IH[OF skipped(2)] show ?thesis by auto
  next
    case (recorded i)
    with Cons.IH[OF recorded(3)] show ?thesis by auto
  qed
qed

lemma classify_rows_finite:
  "classify_rows rows (ps0, info0) = Inr (ps, info) \<Longrightarrow> finite ps0 \<Longrightarrow> finite ps"
  by (induction rows arbitrary: ps0 info0) (auto simp: Let_def split: option.splits if_splits)

lemma classify_rows_total:
  "\<forall>r\<in>set rows. r ''primer'' \<noteq> None \<and> r ''id'' \<noteq> None \<Longrightarrow>
   \<exists>ps info. classify_rows rows (ps0, info0) = Inr (ps, info)"
  by (induction rows arbitrary: ps0 info0) (auto simp: Let_def)

lemma classify_rows_drop_NA:
  "classify_rows rows acc = classify_rows (filter not_NA rows) acc"
proof (induction rows arbitrary: acc)
  case Nil
  show ?case by simp
next
  case (Cons r rows)
  obtain ps0 info0 where acc: "acc = (ps0, info0)" by (cases acc)
  show ?case unfolding acc
    by (cases "r ''primer''") (auto simp: not_NA_def Let_def Cons.IH split: option.splits)
qed




lemma read_classify_csv_lookup:
  "read_classify_csv t = Inr (ps, info) \<Longrightarrow> info = spec_lookup (DictReader t)"
  unfolding read_classify_csv_def by (drule classify_rows_lookup) simp

lemma read_classify_csv_primers:
  "read_classify_csv t = Inr (ps, info) \<Longrightarrow> ps = spec_token ` {r \<in> set (DictReader t). not_NA r}"
  unfolding read_classify_csv_def by (drule classify_rows_primers) simp

lemma read_classify_csv_finite:
  "read_classify_csv t = Inr (ps, info) \<Longrightarrow> finite ps"
  unfolding read_classify_csv_def by (drule classify_rows_finite) simp_all

lemma read_classify_csv_ran:
  assumes "read_classify_csv t = Inr (ps, info)"
  shows "ran info \<subseteq> ps"
proof
  fix p assume "p \<in> ran info"
  then obtain x where "info x = Some p" by (auto simp: ran_def)
  then have "spec_lookup (DictReader t) x = Some p"
    using read_classify_csv_lookup[OF assms] by simp
  then have "p \<in> spec_token ` {r \<in> set (DictReader t). not_NA r}" by (rule spec_lookup_ran)
  then show "p \<in> ps" using read_classify_csv_primers[OF assms] by simp
qed

subsection \<open>The aggregation\<close>

text \<open>What a returning aggregation did with its first row.\<close>

lemma read_stat_rows_ConsE:
  assumes "read_stat_rows (r # rs) ci info0 = Inr info"
  obtains (skipped) "\<not> is_fl r" and "read_stat_rows rs ci info0 = Inr info"
  | (counted) i p b where "is_fl r" and "r ''id'' = Some i" and "ci i = Some p"
      and "r ''pbid'' = Some b" and "read_stat_rows rs ci (increment info0 b p) = Inr info"
proof -
  from assms obtain fl where fl: "r ''is_fl'' = Some fl"
    by (cases "r ''is_fl''") auto
  show thesis
  proof (cases "fl = ''Y''")
    case False
    with fl assms have "read_stat_rows rs ci info0 = Inr info" by simp
    moreover have "\<not> is_fl r" using fl False by (simp add: is_fl_def)
    ultimately show thesis by (rule skipped[rotated])
  next
    case True
    with fl assms obtain i where i: "r ''id'' = Some i"
      by (cases "r ''id''") auto
    with fl True assms obtain p where p: "ci i = Some p"
      by (cases "ci i") auto
    with fl True i assms obtain b where b: "r ''pbid'' = Some b"
      by (cases "r ''pbid''") auto
    from fl True i p b assms
    have "read_stat_rows rs ci (increment info0 b p) = Inr info" by simp
    moreover have "is_fl r" using fl True by (simp add: is_fl_def)
    ultimately show thesis using i p b by (intro counted)
  qed
qed

lemma read_stat_rows_missing:
  assumes "\<forall>r\<in>set rows. r ''is_fl'' \<noteq> None \<and> r ''id'' \<noteq> None \<and> r ''pbid'' \<noteq> None"
  shows "case List.find (missing_read ci) rows of
           None \<Rightarrow> \<exists>info'. read_stat_rows rows ci info = Inr info'
         | Some r \<Rightarrow> \<exists>i. r ''id'' = Some i \<and> read_stat_rows rows ci info = Inl (KeyError i)"
  using assms
proof (induction rows arbitrary: info)
  case Nil
  show ?case by simp
next
  case (Cons r rows)
  from Cons.prems obtain fl i b
    where f: "r ''is_fl'' = Some fl" "r ''id'' = Some i" "r ''pbid'' = Some b"
    by auto
  from Cons.prems
  have rest: "\<forall>r\<in>set rows. r ''is_fl'' \<noteq> None \<and> r ''id'' \<noteq> None \<and> r ''pbid'' \<noteq> None"
    by simp
  show ?case
  proof (cases "fl = ''Y''")
    case False
    then have "\<not> missing_read ci r" using f by (simp add: missing_read_def is_fl_def)
    then show ?thesis using Cons.IH[OF rest, of info] f False by (auto split: option.splits)
  next
    case True
    show ?thesis
    proof (cases "ci i")
      case None
      then have "missing_read ci r" using f True by (simp add: missing_read_def is_fl_def)
      then show ?thesis using f True None by simp
    next
      case (Some p)
      then have "\<not> missing_read ci r" using f by (simp add: missing_read_def)
      then show ?thesis using Cons.IH[OF rest, of "increment info b p"] f True Some
        by (auto split: option.splits)
    qed
  qed
qed

lemma read_stat_rows_only_fl:
  "read_stat_rows rows ci info0 = Inr info \<Longrightarrow>
   read_stat_rows (filter is_fl rows) ci info0 = Inr info"
proof (induction rows arbitrary: info0)
  case Nil
  then show ?case by simp
next
  case (Cons r rows)
  from Cons.prems show ?case
  proof (cases rule: read_stat_rows_ConsE)
    case skipped
    with Cons.IH[OF skipped(2)] show ?thesis by simp
  next
    case (counted i p b)
    with Cons.IH[OF counted(5)] show ?thesis by (simp add: is_fl_def)
  qed
qed

text \<open>One more read of isoform \<open>b\<close> and primer \<open>p\<close> adds one to the row of \<open>b\<close>.\<close>

lemma cell_empty: "cell Map.empty x p = 0"
  by (simp add: cell_def)

lemma cell_increment:
  "cell (increment info b p) b' p' = cell info b' p' + (if b' = b \<and> p' = p then 1 else 0)"
  by (auto simp: cell_def increment_def counter_get_def Let_def split: option.splits)

lemma row_sum_increment_notin:
  "p \<notin> set cols \<Longrightarrow>
   sum_list (map (cell (increment info b p) b') cols) = sum_list (map (cell info b') cols)"
  by (induction cols) (auto simp: cell_increment)

lemma row_sum_increment:
  "distinct cols \<Longrightarrow> p \<in> set cols \<Longrightarrow>
   sum_list (map (cell (increment info b p) b') cols) =
   sum_list (map (cell info b') cols) + (if b' = b then 1 else 0)"
proof (induction cols)
  case Nil
  then show ?case by simp
next
  case (Cons c cols)
  show ?case
  proof (cases "c = p")
    case True
    with Cons.prems have "p \<notin> set cols" by simp
    then have tail: "sum_list (map (cell (increment info b p) b') cols) =
        sum_list (map (cell info b') cols)"
      by (rule row_sum_increment_notin)
    have head: "cell (increment info b p) b' p = cell info b' p + (if b' = b then 1 else 0)"
      by (simp add: cell_increment)
    show ?thesis unfolding True list.map sum_list.Cons tail head by simp
  next
    case False
    with Cons.prems have "distinct cols" "p \<in> set cols" by auto
    then show ?thesis using False Cons.IH by (simp add: cell_increment)
  qed
qed

lemma read_stat_rows_sum:
  assumes "read_stat_rows rows ci info0 = Inr info" and "distinct cols" and "ran ci \<subseteq> set cols"
  shows "sum_list (map (cell info x) cols) =
         sum_list (map (cell info0 x) cols) + length (fl_reads_of ci rows x)"
  using assms(1)
proof (induction rows arbitrary: info0)
  case Nil
  then show ?case by (simp add: fl_reads_of_def)
next
  case (Cons r rows)
  from Cons.prems show ?case
  proof (cases rule: read_stat_rows_ConsE)
    case skipped
    with Cons.IH[OF skipped(2)] show ?thesis by (simp add: fl_reads_of_def)
  next
    case (counted i p b)
    from counted(3) assms(3) have "p \<in> set cols" by (auto simp: ran_def)
    with assms(2) have "sum_list (map (cell (increment info0 b p) x) cols) =
        sum_list (map (cell info0 x) cols) + (if x = b then 1 else 0)"
      by (rule row_sum_increment)
    with Cons.IH[OF counted(5)] counted(1-4) show ?thesis
      by (auto simp: fl_reads_of_def)
  qed
qed

subsection \<open>The writing loops\<close>

lemma write_cells_Some:
  "info pbid = Some c \<Longrightarrow>
   write_cells info pbid cols f = Inr (f @ concat (map (\<lambda>p. '','' @ str_nat (counter_get c p)) cols))"
  by (induction cols arbitrary: f) auto

lemma write_cells_None:
  "info pbid = None \<Longrightarrow>
   write_cells info pbid cols f = (if cols = [] then Inr f else Inl (KeyError pbid, f))"
  by (cases cols) auto

lemma write_row_ok:
  "cols = [] \<or> info pbid \<noteq> None \<Longrightarrow>
   write_cells info pbid cols (f @ pbid) =
     Inr (f @ pbid @ concat (map (\<lambda>n. '','' @ str_nat n) (map (cell info pbid) cols)))"
  by (cases "info pbid") (auto simp: write_cells_Some write_cells_None cell_def comp_def)

lemma write_rows_ok:
  "cols = [] \<or> (\<forall>rid\<in>set rids. info (pbid_of rid) \<noteq> None) \<Longrightarrow>
   write_rows info cols rids f =
     Inr (f @ concat (map (\<lambda>rid. row_line (pbid_of rid) (map (cell info (pbid_of rid)) cols)) rids))"
proof (induction rids arbitrary: f)
  case Nil
  show ?case by simp
next
  case (Cons rid rids)
  from Cons.prems have here: "cols = [] \<or> info (pbid_of rid) \<noteq> None"
    and rest: "cols = [] \<or> (\<forall>rid\<in>set rids. info (pbid_of rid) \<noteq> None)" by auto
  show ?case
    by (simp add: Let_def write_row_ok[where info=info and cols=cols, OF here]
        Cons.IH[OF rest] row_line_def)
qed

lemma write_rows_fails:
  assumes "cols \<noteq> []" and "List.find (\<lambda>rid. info (pbid_of rid) = None) rids = Some bad"
  shows "write_rows info cols rids f =
     Inl (KeyError (pbid_of bad),
          f @ concat (map (\<lambda>rid. row_line (pbid_of rid) (map (cell info (pbid_of rid)) cols))
                      (takeWhile (\<lambda>rid. info (pbid_of rid) \<noteq> None) rids)) @ pbid_of bad)"
  using assms(2)
proof (induction rids arbitrary: f)
  case Nil
  then show ?case by simp
next
  case (Cons rid rids)
  show ?case
  proof (cases "info (pbid_of rid)")
    case None
    with Cons.prems have "bad = rid" by simp
    then show ?thesis using None assms(1) by (simp add: Let_def write_cells_None)
  next
    case (Some c)
    with Cons.prems have "List.find (\<lambda>rid. info (pbid_of rid) = None) rids = Some bad" by simp
    from Cons.IH[OF this] show ?thesis using Some
      by (simp add: Let_def write_row_ok row_line_def)
  qed
qed

lemma write_rows_outcome:
  "write_rows info cols rids f =
     (case (if cols = [] then None else List.find (\<lambda>rid. info (pbid_of rid) = None) rids) of
        None \<Rightarrow>
          Inr (f @ concat (map (\<lambda>rid. row_line (pbid_of rid) (map (cell info (pbid_of rid)) cols)) rids))
      | Some bad \<Rightarrow>
          Inl (KeyError (pbid_of bad),
               f @ concat (map (\<lambda>rid. row_line (pbid_of rid) (map (cell info (pbid_of rid)) cols))
                            (takeWhile (\<lambda>rid. info (pbid_of rid) \<noteq> None) rids)) @ pbid_of bad))"
proof (cases "cols = []")
  case True
  then show ?thesis using write_rows_ok[of cols rids info f] by simp
next
  case ne: False
  show ?thesis
  proof (cases "List.find (\<lambda>rid. info (pbid_of rid) = None) rids")
    case None
    then have "\<forall>rid\<in>set rids. info (pbid_of rid) \<noteq> None" by (simp add: find_None_iff)
    then show ?thesis using write_rows_ok[of cols rids info f] ne None by simp
  next
    case (Some bad)
    from write_rows_fails[OF ne Some, of f] show ?thesis using ne Some by simp
  qed
qed

lemma write_rows_completed:
  assumes "write_rows info cols rids f = Inr f'"
  shows "f' = f @ concat (map (\<lambda>rid. row_line (pbid_of rid) (map (cell info (pbid_of rid)) cols)) rids)"
  using assms write_rows_outcome[of info cols rids f]
  by (auto split: option.splits if_splits)

subsection \<open>The primer columns and the run of \<^verbatim>\<open>main\<close>\<close>

lemma setitem_new: "\<not> contains d k \<Longrightarrow> setitem d k v = d @ [(k, v)]"
  by (induction d) (auto simp: contains_def)

lemma fill_defaults_append:
  "distinct xs \<Longrightarrow>
   fill_defaults (map (\<lambda>x. (x, x)) xs) d =
     d @ map (\<lambda>x. (x, x)) (filter (\<lambda>x. \<not> contains d x) xs)"
proof (induction xs arbitrary: d)
  case Nil
  show ?case by simp
next
  case (Cons x xs)
  then have dx: "distinct xs" and nx: "x \<notin> set xs" by auto
  show ?case
  proof (cases "contains d x")
    case True
    then show ?thesis using Cons.IH[OF dx, of d] by simp
  next
    case False
    have "filter (\<lambda>y. \<not> contains (d @ [(x, x)]) y) xs = filter (\<lambda>y. \<not> contains d y) xs"
      using nx by (intro filter_cong) (auto simp: contains_def)
    then show ?thesis using False Cons.IH[OF dx, of "d @ [(x, x)]"]
      by (simp add: setitem_new)
  qed
qed

lemma map_of_self: "map_of (map (\<lambda>x. (x, x)) xs) k = (if k \<in> set xs then Some k else None)"
  by (induction xs) auto

lemma map_filter_all_Some:
  "\<forall>y\<in>set ys. f y = Some (g y) \<Longrightarrow> List.map_filter f ys = map g ys"
  by (induction ys) (simp_all add: List.map_filter_simps)

lemma iteritems_self:
  assumes "is_enumeration enum" and "distinct xs"
  shows "iteritems enum (map (\<lambda>x. (x, x)) xs) = map (\<lambda>x. (x, x)) (enum xs)"
proof -
  have k: "keys enum (map (\<lambda>x. (x, x)) xs) = enum xs" by (simp add: keys_def comp_def)
  have "set (enum xs) = set xs" using assms by (simp add: is_enumeration_def)
  then have "\<forall>k\<in>set (enum xs).
      map_option (Pair k) (map_of (map (\<lambda>x. (x, x)) xs) k) = Some (k, k)"
    by (simp add: map_of_self)
  then show ?thesis unfolding iteritems_def k by (rule map_filter_all_Some)
qed

lemma resolve_None:
  "resolve_primer_names enum ps None = map (\<lambda>x. (x, x)) (sorted_list_of_set ps)"
  by (simp add: resolve_primer_names_def)

lemma resolve_Some:
  assumes "is_enumeration enum"
  shows "resolve_primer_names enum ps (Some d) =
     d @ map (\<lambda>x. (x, x)) (filter (\<lambda>x. \<not> contains d x) (enum (sorted_list_of_set ps)))"
proof -
  have d: "distinct (enum (sorted_list_of_set ps))"
    using assms by (simp add: is_enumeration_def)
  show ?thesis
    by (simp add: resolve_primer_names_def iteritems_self[OF assms] fill_defaults_append[OF d])
qed

lemma enum_sorted_set:
  "is_enumeration enum \<Longrightarrow> finite ps \<Longrightarrow> set (enum (sorted_list_of_set ps)) = ps"
  by (simp add: is_enumeration_def)

lemma resolve_distinct:
  assumes "is_enumeration enum" and "is_mapping ov"
  shows "distinct (map fst (resolve_primer_names enum ps ov))"
proof (cases ov)
  case None
  then show ?thesis by (simp add: resolve_None comp_def)
next
  case (Some d)
  have "distinct (enum (sorted_list_of_set ps))"
    using assms(1) by (simp add: is_enumeration_def)
  then show ?thesis using assms(2) Some
    by (auto simp: resolve_Some[OF assms(1)] is_mapping_def comp_def contains_def)
qed

lemma resolve_keys_set:
  assumes "is_enumeration enum" and "finite ps"
  shows "set (map fst (resolve_primer_names enum ps ov)) =
         (case ov of None \<Rightarrow> ps | Some d \<Rightarrow> set (map fst d) \<union> ps)"
proof (cases ov)
  case None
  then show ?thesis using assms(2) by (simp add: resolve_None comp_def)
next
  case (Some d)
  then show ?thesis using enum_sorted_set[OF assms]
    by (auto simp: resolve_Some[OF assms(1)] comp_def contains_def)
qed

lemma columns_distinct:
  assumes "is_enumeration enum" and "is_mapping ov"
  shows "distinct (keys enum (resolve_primer_names enum ps ov))"
  using resolve_distinct[OF assms, of ps] assms(1) by (simp add: keys_def is_enumeration_def)

lemma columns_set:
  assumes "is_enumeration enum" and "is_mapping ov" and "finite ps"
  shows "set (keys enum (resolve_primer_names enum ps ov)) =
         (case ov of None \<Rightarrow> ps | Some d \<Rightarrow> set (map fst d) \<union> ps)"
proof -
  have "set (keys enum (resolve_primer_names enum ps ov)) =
        set (map fst (resolve_primer_names enum ps ov))"
    using resolve_distinct[OF assms(1,2), of ps] assms(1) by (simp add: keys_def is_enumeration_def)
  then show ?thesis using resolve_keys_set[OF assms(1,3), of ov] by simp
qed




lemma resolve_labels:
  assumes "is_enumeration enum" and "finite ps"
  shows "map_of (resolve_primer_names enum ps ov) k =
     (case ov of
        None \<Rightarrow> if k \<in> ps then Some k else None
      | Some d \<Rightarrow> (case map_of d k of Some v \<Rightarrow> Some v | None \<Rightarrow> if k \<in> ps then Some k else None))"
proof (cases ov)
  case None
  then show ?thesis using assms(2) by (simp add: resolve_None map_of_self)
next
  case (Some d)
  note s = enum_sorted_set[OF assms]
  show ?thesis
  proof (cases "map_of d k")
    case None
    then have "\<not> contains d k" by (simp add: map_of_eq_None_iff contains_def)
    then show ?thesis using None Some s
      by (simp add: resolve_Some[OF assms(1)] map_add_def map_of_self)
  next
    case (Some v)
    then show ?thesis using \<open>ov = Some d\<close>
      by (simp add: resolve_Some[OF assms(1)] map_add_def)
  qed
qed

lemma main_reads_ok:
  assumes "read_classify_csv cc = Inr (ps, ci)" and "read_read_stat rs ci = Inr info"
  shows "main enum fq rs cc ov =
     (case write_rows info (keys enum (resolve_primer_names enum ps ov)) fq
             (header enum (resolve_primer_names enum ps ov)) of
        Inl (e, f) \<Rightarrow> \<lparr>names_after = map_option (\<lambda>_. resolve_primer_names enum ps ov) ov,
                        written = Some f, raised = Some e\<rparr>
      | Inr f \<Rightarrow> \<lparr>names_after = map_option (\<lambda>_. resolve_primer_names enum ps ov) ov,
                   written = Some f, raised = None\<rparr>)"
  using assms by (simp add: main_def Let_def)

lemma main_completed:
  assumes "raised (main enum fq rs cc ov) = None"
  shows "\<exists>ps ci info f. read_classify_csv cc = Inr (ps, ci) \<and> read_read_stat rs ci = Inr info \<and>
           write_rows info (keys enum (resolve_primer_names enum ps ov)) fq
             (header enum (resolve_primer_names enum ps ov)) = Inr f \<and>
           written (main enum fq rs cc ov) = Some f"
proof (cases "read_classify_csv cc")
  case (Inl e)
  with assms show ?thesis by (simp add: main_def)
next
  case (Inr res)
  obtain ps ci where res: "res = (ps, ci)" by (cases res)
  show ?thesis
  proof (cases "read_read_stat rs ci")
    case (Inl e)
    with assms Inr res show ?thesis by (simp add: main_def)
  next
    case info: (Inr info)
    note m = main_reads_ok[OF Inr[unfolded res] info, of enum fq ov]
    show ?thesis
    proof (cases "write_rows info (keys enum (resolve_primer_names enum ps ov)) fq
             (header enum (resolve_primer_names enum ps ov))")
      case (Inl ef)
      with assms m show ?thesis by (cases ef) simp
    next
      case (Inr f)
      with m info \<open>read_classify_csv cc = Inr res\<close> res show ?thesis by simp
    qed
  qed
qed


lemma row_sums:
  assumes cc: "read_classify_csv cc = Inr (ps, ci)" and rs: "read_read_stat rs ci = Inr info"
    and en: "is_enumeration enum" and ov: "is_mapping ov"
  shows "sum_list (map (cell info x) (keys enum (resolve_primer_names enum ps ov))) =
         length (fl_reads_of ci (DictReader rs) x)"
proof -
  let ?cols = "keys enum (resolve_primer_names enum ps ov)"
  have d: "distinct ?cols" using en ov by (rule columns_distinct)
  have "ran ci \<subseteq> ps" using cc by (rule read_classify_csv_ran)
  moreover have "ps \<subseteq> set ?cols"
    using columns_set[OF en ov read_classify_csv_finite[OF cc]] by (cases ov) auto
  ultimately have r: "ran ci \<subseteq> set ?cols" by blast
  from rs have "read_stat_rows (DictReader rs) ci Map.empty = Inr info"
    by (simp add: read_read_stat_def)
  from read_stat_rows_sum[OF this d r, of x] show ?thesis
    by (simp add: cell_empty)
qed

subsection \<open>The classification index\<close>

text \<open>
  Claim C7. On a classification report that keeps its input contract (the fields
  \<^verbatim>\<open>id\<close> and \<^verbatim>\<open>primer\<close>, no short row) the build returns, whatever read ids
  repeat, and the lookup it returns maps each read id that occurs in a row whose
  primer is not \<^verbatim>\<open>"NA"\<close> to the token of the last such row (the \<^verbatim>\<open>primer_index\<close>
  field if the row has one, else the \<^verbatim>\<open>primer\<close> field), and no other read id.
\<close>

theorem lookup_takes_last_row:
  assumes "has_fields t [''id'', ''primer'']"
  shows "\<exists>ps. read_classify_csv t = Inr (ps, spec_lookup (DictReader t))"
proof -
  have "\<forall>r\<in>set (DictReader t). r ''primer'' \<noteq> None \<and> r ''id'' \<noteq> None"
    using has_fields_row[OF assms] by simp
  then obtain ps info where run: "read_classify_csv t = Inr (ps, info)"
    unfolding read_classify_csv_def using classify_rows_total by blast
  then have "info = spec_lookup (DictReader t)" by (rule read_classify_csv_lookup)
  with run show ?thesis by blast
qed

theorem lookup_takes_last_row_witness:
  "has_fields classify_dup [''id'', ''primer''] \<and>
   (\<exists>ps. read_classify_csv classify_dup = Inr (ps, spec_lookup (DictReader classify_dup))) \<and>
   spec_lookup (DictReader classify_dup) ''m1/1/ccs'' = Some ''0--6'' \<and>
   spec_lookup (DictReader classify_dup) ''m1/2/ccs'' = None"
proof -
  have h: "has_fields classify_dup [''id'', ''primer'']" by code_simp
  have a: "spec_lookup (DictReader classify_dup) ''m1/1/ccs'' = Some ''0--6''" by code_simp
  have b: "spec_lookup (DictReader classify_dup) ''m1/2/ccs'' = None" by code_simp
  from lookup_takes_last_row[OF h] h a b show ?thesis by blast
qed

text \<open>
  Claim C8. A row whose primer field is \<^verbatim>\<open>"NA"\<close> contributes nothing: the build
  gives the very result it gives on the report without these rows, the primer set is
  the set of tokens of the other rows, and the read ids recorded are those of the
  other rows.
\<close>

theorem NA_rows_contribute_nothing:
  "read_classify_csv t = classify_rows (filter not_NA (DictReader t)) ({}, Map.empty) \<and>
   (read_classify_csv t = Inr (ps, info) \<longrightarrow>
      ps = spec_token ` {r \<in> set (DictReader t). not_NA r} \<and>
      dom info = {i. \<exists>r\<in>set (DictReader t). not_NA r \<and> r ''id'' = Some i})"
proof (intro conjI impI)
  show "read_classify_csv t = classify_rows (filter not_NA (DictReader t)) ({}, Map.empty)"
    unfolding read_classify_csv_def by (rule classify_rows_drop_NA)
next
  assume "read_classify_csv t = Inr (ps, info)"
  then show "ps = spec_token ` {r \<in> set (DictReader t). not_NA r}"
    by (rule read_classify_csv_primers)
next
  assume "read_classify_csv t = Inr (ps, info)"
  then have "info = spec_lookup (DictReader t)" by (rule read_classify_csv_lookup)
  then show "dom info = {i. \<exists>r\<in>set (DictReader t). not_NA r \<and> r ''id'' = Some i}"
    by (simp add: spec_lookup_dom)
qed

theorem NA_rows_contribute_nothing_witness:
  "\<exists>ps info. read_classify_csv classify_12 = Inr (ps, info) \<and>
     ps = {''2'', ''3''} \<and> info ''r3'' = None \<and>
     ps = spec_token ` {r \<in> set (DictReader classify_12). not_NA r} \<and>
     dom info = {i. \<exists>r\<in>set (DictReader classify_12). not_NA r \<and> r ''id'' = Some i}"
proof -
  have ev: "case read_classify_csv classify_12 of
          Inl e \<Rightarrow> False
        | Inr (ps, info) \<Rightarrow> ps = {''2'', ''3''} \<and> info ''r3'' = None"
    by code_simp
  obtain ps info where run: "read_classify_csv classify_12 = Inr (ps, info)"
    using ev by (cases "read_classify_csv classify_12") (simp_all only: sum.case, blast)
  from ev have vals: "ps = {''2'', ''3''} \<and> info ''r3'' = None"
    unfolding run by (simp only: sum.case prod.case)
  note sets = NA_rows_contribute_nothing[of classify_12 ps info, THEN conjunct2, THEN mp, OF run]
  show ?thesis
    by (rule exI[of _ ps], rule exI[of _ info], intro conjI)
       (fact run, fact vals[THEN conjunct1], fact vals[THEN conjunct2],
        fact sets[THEN conjunct1], fact sets[THEN conjunct2])
qed




subsection \<open>The aggregation\<close>

text \<open>
  Claim C5. On a read-status table that keeps its input contract (the fields \<^verbatim>\<open>id\<close>,
  \<^verbatim>\<open>is_fl\<close> and \<^verbatim>\<open>pbid\<close>, no short row) the aggregation fails exactly when some row
  with \<^verbatim>\<open>is_fl == "Y"\<close> has a read id that the lookup lacks, and then with the
  \<^verbatim>\<open>KeyError\<close> of the first such row's read id; without such a row it returns. So a
  row whose \<^verbatim>\<open>is_fl\<close> is not \<^verbatim>\<open>"Y"\<close> never triggers the error, and no full-length
  read that the lookup lacks is skipped.
\<close>

theorem missing_read_is_fatal:
  assumes "has_fields t [''id'', ''is_fl'', ''pbid'']"
  shows "(case List.find (missing_read ci) (DictReader t) of
            None \<Rightarrow> \<exists>info. read_read_stat t ci = Inr info
          | Some r \<Rightarrow> \<exists>i. r ''id'' = Some i \<and> read_read_stat t ci = Inl (KeyError i)) \<and>
         ((\<exists>e. read_read_stat t ci = Inl e) \<longleftrightarrow> (\<exists>r\<in>set (DictReader t). missing_read ci r))"
proof -
  note fields = has_fields_read_stat[OF assms]
  have first: "case List.find (missing_read ci) (DictReader t) of
            None \<Rightarrow> \<exists>info. read_read_stat t ci = Inr info
          | Some r \<Rightarrow> \<exists>i. r ''id'' = Some i \<and> read_read_stat t ci = Inl (KeyError i)"
    unfolding read_read_stat_def using fields by (rule read_stat_rows_missing)
  have "(\<exists>e. read_read_stat t ci = Inl e) \<longleftrightarrow> (\<exists>r\<in>set (DictReader t). missing_read ci r)"
  proof (cases "List.find (missing_read ci) (DictReader t)")
    case None
    then have "\<not> (\<exists>r\<in>set (DictReader t). missing_read ci r)" by (simp add: find_None_iff)
    moreover from first None have "\<not> (\<exists>e. read_read_stat t ci = Inl e)" by auto
    ultimately show ?thesis by blast
  next
    case (Some r)
    then have "\<exists>r\<in>set (DictReader t). missing_read ci r"
      using nth_mem by (fastforce simp: find_Some_iff)
    moreover from first Some have "\<exists>e. read_read_stat t ci = Inl e" by auto
    ultimately show ?thesis by blast
  qed
  with first show ?thesis by blast
qed

theorem missing_read_is_fatal_witness:
  "has_fields read_stat_123 [''id'', ''is_fl'', ''pbid''] \<and>
   (\<exists>e. read_read_stat read_stat_123 [''r1'' \<mapsto> ''2'', ''r2'' \<mapsto> ''3''] = Inl e) \<and>
   has_fields read_stat_12 [''id'', ''is_fl'', ''pbid''] \<and>
   \<not> (\<exists>e. read_read_stat read_stat_12 [''r1'' \<mapsto> ''2'', ''r2'' \<mapsto> ''3''] = Inl e) \<and>
   (case read_read_stat read_stat_123 [''r1'' \<mapsto> ''2'', ''r2'' \<mapsto> ''3''] of
      Inl e \<Rightarrow> e = KeyError ''r3'' | Inr info \<Rightarrow> False)"
proof -
  let ?ci = "[''r1'' \<mapsto> ''2'', ''r2'' \<mapsto> ''3'']"
  have h1: "has_fields read_stat_123 [''id'', ''is_fl'', ''pbid'']" by code_simp
  have h2: "has_fields read_stat_12 [''id'', ''is_fl'', ''pbid'']" by code_simp
  have m1: "\<exists>r\<in>set (DictReader read_stat_123). missing_read ?ci r" by code_simp
  have m2: "\<not> (\<exists>r\<in>set (DictReader read_stat_12). missing_read ?ci r)" by code_simp
  note t1 = missing_read_is_fatal[OF h1, of ?ci, THEN conjunct2]
  note t2 = missing_read_is_fatal[OF h2, of ?ci, THEN conjunct2]
  from m1 have r1: "\<exists>e. read_read_stat read_stat_123 ?ci = Inl e" by (rule t1[THEN iffD2])
  have r2: "\<not> (\<exists>e. read_read_stat read_stat_12 ?ci = Inl e)"
  proof
    assume "\<exists>e. read_read_stat read_stat_12 ?ci = Inl e"
    then have "\<exists>r\<in>set (DictReader read_stat_12). missing_read ?ci r" by (rule t2[THEN iffD1])
    with m2 show False ..
  qed
  have r3: "case read_read_stat read_stat_123 ?ci of
      Inl e \<Rightarrow> e = KeyError ''r3'' | Inr info \<Rightarrow> False" by code_simp
  from h1 r1 h2 r2 r3 show ?thesis by (intro conjI)
qed

text \<open>
  Claim C4. In a run that completes, the output is the header followed by one line per
  sequence record, and the counts on the line of an isoform add up to the number of
  read-status rows with \<^verbatim>\<open>is_fl == "Y"\<close>, with that isoform as \<^verbatim>\<open>pbid\<close>, and with a read
  id the lookup knows; the same holds of every isoform of the matrix. The count matrix
  is the one the full-length rows alone give: a row whose \<^verbatim>\<open>is_fl\<close> is not \<^verbatim>\<open>"Y"\<close>
  adds to no count. This holds for every enumeration order of the runtime's mappings.
\<close>

theorem row_sum_counts_full_length_reads:
  assumes "raised (main enum fq rs cc ov) = None" and "is_enumeration enum" and "is_mapping ov"
  shows "\<exists>ps ci info.
           read_classify_csv cc = Inr (ps, ci) \<and> read_read_stat rs ci = Inr info \<and>
           (let cols = keys enum (resolve_primer_names enum ps ov) in
            written (main enum fq rs cc ov) =
              Some (header enum (resolve_primer_names enum ps ov) @
                    concat (map (\<lambda>rid. row_line (pbid_of rid) (map (cell info (pbid_of rid)) cols)) fq)) \<and>
            (\<forall>x. sum_list (map (cell info x) cols) = length (fl_reads_of ci (DictReader rs) x))) \<and>
           read_stat_rows (filter is_fl (DictReader rs)) ci Map.empty = Inr info"
proof -
  from main_completed[OF assms(1)] obtain ps ci info f where
    cc: "read_classify_csv cc = Inr (ps, ci)" and rs: "read_read_stat rs ci = Inr info" and
    w: "write_rows info (keys enum (resolve_primer_names enum ps ov)) fq
             (header enum (resolve_primer_names enum ps ov)) = Inr f" and
    out: "written (main enum fq rs cc ov) = Some f" by blast
  note f = write_rows_completed[OF w]
  have sums: "\<forall>x. sum_list (map (cell info x) (keys enum (resolve_primer_names enum ps ov))) =
                  length (fl_reads_of ci (DictReader rs) x)"
    using row_sums[OF cc rs assms(2,3)] by blast
  from rs have "read_stat_rows (DictReader rs) ci Map.empty = Inr info"
    by (simp add: read_read_stat_def)
  then have only: "read_stat_rows (filter is_fl (DictReader rs)) ci Map.empty = Inr info"
    by (rule read_stat_rows_only_fl)
  from cc rs out f sums only show ?thesis unfolding Let_def by blast
qed

theorem row_sum_counts_full_length_reads_witness:
  "raised (main rev [''PB.1.1|path1''] read_stat_12 classify_12 (Some [(''2'', ''SampleA'')])) = None \<and>
   is_enumeration rev \<and> is_mapping (Some [(''2'', ''SampleA'')]) \<and>
   written (main rev [''PB.1.1|path1''] read_stat_12 classify_12 (Some [(''2'', ''SampleA'')])) =
     Some ''id,3,2\<newline>PB.1.1,1,1\<newline>'' \<and>
   (\<exists>ps ci info.
           read_classify_csv classify_12 = Inr (ps, ci) \<and> read_read_stat read_stat_12 ci = Inr info \<and>
           (let cols = keys rev (resolve_primer_names rev ps (Some [(''2'', ''SampleA'')])) in
            written (main rev [''PB.1.1|path1''] read_stat_12 classify_12 (Some [(''2'', ''SampleA'')])) =
              Some (header rev (resolve_primer_names rev ps (Some [(''2'', ''SampleA'')])) @
                    concat (map (\<lambda>rid. row_line (pbid_of rid) (map (cell info (pbid_of rid)) cols))
                       [''PB.1.1|path1''])) \<and>
            (\<forall>x. sum_list (map (cell info x) cols) =
                 length (fl_reads_of ci (DictReader read_stat_12) x))) \<and>
           read_stat_rows (filter is_fl (DictReader read_stat_12)) ci Map.empty = Inr info)"
proof -
  have h1: "raised (main rev [''PB.1.1|path1''] read_stat_12 classify_12 (Some [(''2'', ''SampleA'')])) = None"
    by code_simp
  have h2: "is_enumeration rev" by (simp add: is_enumeration_def)
  have h3: "is_mapping (Some [(''2'', ''SampleA'')])" by code_simp
  have out: "written (main rev [''PB.1.1|path1''] read_stat_12 classify_12 (Some [(''2'', ''SampleA'')])) =
     Some ''id,3,2\<newline>PB.1.1,1,1\<newline>''" by code_simp
  from h1 h2 h3 out row_sum_counts_full_length_reads[OF h1 h2 h3] show ?thesis by (intro conjI)
qed

subsection \<open>The matrix writer\<close>

text \<open>
  Claim C2, as stated, fails on the code: \<^verbatim>\<open>read_read_stat\<close> returns a plain \<^verbatim>\<open>dict\<close>,
  so for an isoform of the sequence file without any counted read the subscript
  \<^verbatim>\<open>info[pbid]\<close> raises. Here the isoform \<^verbatim>\<open>PB.2.1\<close> has no entry: the run ends with
  \<^verbatim>\<open>KeyError('PB.2.1')\<close>, the file holding the header, the row before and the
  isoform's id.
\<close>

theorem writer_fails_counterexample:
  "raised (main insertion_order [''PB.1.1|path1'', ''PB.2.1|path2''] read_stat_12 classify_12 None) =
     Some (KeyError ''PB.2.1'') \<and>
   written (main insertion_order [''PB.1.1|path1'', ''PB.2.1|path2''] read_stat_12 classify_12 None) =
     Some ''id,2,3\<newline>PB.1.1,1,1\<newline>PB.2.1''"
  by code_simp

text \<open>
  Claim C2, amended. For every isoform of the sequence that has an entry in the count
  matrix and every column primer the writer emits the count stored there, or 0 when
  the isoform's entry lacks the primer. It fails, with the \<^verbatim>\<open>KeyError\<close> of the
  isoform, at the first isoform without an entry if there is a column at all, having
  written the rows before it and the isoform's id; in no other case does it fail.
\<close>

theorem writer_fails_on_an_isoform_without_entry:
  "write_rows info cols rids f =
     (case (if cols = [] then None else List.find (\<lambda>rid. info (pbid_of rid) = None) rids) of
        None \<Rightarrow>
          Inr (f @ concat (map (\<lambda>rid. row_line (pbid_of rid) (map (cell info (pbid_of rid)) cols)) rids))
      | Some bad \<Rightarrow>
          Inl (KeyError (pbid_of bad),
               f @ concat (map (\<lambda>rid. row_line (pbid_of rid) (map (cell info (pbid_of rid)) cols))
                            (takeWhile (\<lambda>rid. info (pbid_of rid) \<noteq> None) rids)) @ pbid_of bad)) \<and>
   (info pbid = Some c \<longrightarrow> cell info pbid p = (case c p of None \<Rightarrow> 0 | Some n \<Rightarrow> n))"
proof (rule conjI)
  let ?line = "\<lambda>rid. row_line (pbid_of rid) (map (cell info (pbid_of rid)) cols)"
  let ?first_bad = "List.find (\<lambda>rid. info (pbid_of rid) = None) rids"
  show "write_rows info cols rids f =
     (case (if cols = [] then None else ?first_bad) of
        None \<Rightarrow> Inr (f @ concat (map ?line rids))
      | Some bad \<Rightarrow>
          Inl (KeyError (pbid_of bad),
               f @ concat (map ?line (takeWhile (\<lambda>rid. info (pbid_of rid) \<noteq> None) rids)) @
               pbid_of bad))"
  proof (cases "cols = []")
    case True
    then have "write_rows info cols rids f = Inr (f @ concat (map ?line rids))"
      by (intro write_rows_ok) simp
    with True show ?thesis by simp
  next
    case columns: False
    show ?thesis
    proof (cases ?first_bad)
      case None
      then have "\<forall>rid\<in>set rids. info (pbid_of rid) \<noteq> None" by (simp add: find_None_iff)
      then have "write_rows info cols rids f = Inr (f @ concat (map ?line rids))"
        by (intro write_rows_ok) simp
      with columns None show ?thesis by simp
    next
      case (Some bad)
      from write_rows_fails[OF columns Some, of f] columns Some show ?thesis by simp
    qed
  qed
next
  show "info pbid = Some c \<longrightarrow> cell info pbid p = (case c p of None \<Rightarrow> 0 | Some n \<Rightarrow> n)"
    by (simp add: cell_def counter_get_def)
qed

theorem writer_fails_on_an_isoform_without_entry_witness:
  "cell [''PB.1.1'' \<mapsto> [''2'' \<mapsto> 4]] ''PB.1.1'' ''2'' = 4 \<and>
   cell [''PB.1.1'' \<mapsto> [''2'' \<mapsto> 4]] ''PB.1.1'' ''3'' = 0 \<and>
   write_rows [''PB.1.1'' \<mapsto> [''2'' \<mapsto> 4]] [''2'', ''3''] [''PB.1.1|path1'', ''PB.2.1|path2''] ''id,2,3\<newline>'' =
     Inl (KeyError ''PB.2.1'', ''id,2,3\<newline>PB.1.1,4,0\<newline>PB.2.1'')"
proof -
  let ?info = "[''PB.1.1'' \<mapsto> [''2'' \<mapsto> (4::nat)]]"
  have e: "?info ''PB.1.1'' = Some [''2'' \<mapsto> 4]" by simp
  note t = writer_fails_on_an_isoform_without_entry[of ?info _ _ _ "''PB.1.1''" "[''2'' \<mapsto> 4]"]
  have a: "cell ?info ''PB.1.1'' ''2'' = 4"
    using t[of "[]" "[]" "[]" "''2''", THEN conjunct2, THEN mp, OF e] by simp
  have b: "cell ?info ''PB.1.1'' ''3'' = 0"
    using t[of "[]" "[]" "[]" "''3''", THEN conjunct2, THEN mp, OF e] by simp
  have c: "write_rows ?info [''2'', ''3''] [''PB.1.1|path1'', ''PB.2.1|path2''] ''id,2,3\<newline>'' =
     Inl (KeyError ''PB.2.1'', ''id,2,3\<newline>PB.1.1,4,0\<newline>PB.2.1'')"
    by code_simp
  from a b c show ?thesis by (intro conjI)
qed

text \<open>
  Claim C3, as stated, fails on the code: the loop over the sequence records writes a
  row for each record and keeps no memory of the isoforms it has seen. An isoform
  identifier that recurs gets its row again.
\<close>

theorem duplicate_rows_counterexample:
  "raised (main insertion_order [''PB.1.1|path1'', ''PB.1.1|path2''] read_stat_12 classify_12 None) = None \<and>
   written (main insertion_order [''PB.1.1|path1'', ''PB.1.1|path2''] read_stat_12 classify_12 None) =
     Some ''id,2,3\<newline>PB.1.1,1,1\<newline>PB.1.1,1,1\<newline>''"
  by code_simp

text \<open>
  Claim C3, amended. A run that completes writes exactly one row per sequence record,
  in the order of the records, each row starting with the part of the record's id
  before the first \<^verbatim>\<open>"|"\<close>. So an isoform identifier has as many rows as records
  carry it: exactly one where no identifier recurs.
\<close>

theorem one_row_per_record:
  assumes "raised (main enum fq rs cc ov) = None"
  shows "\<exists>names rows.
           written (main enum fq rs cc ov) =
             Some (header enum names @ concat (map (\<lambda>(x, ns). row_line x ns) rows)) \<and>
           map fst rows = map pbid_of fq \<and>
           (\<forall>x. length (filter (\<lambda>row. fst row = x) rows) =
                length (filter (\<lambda>rid. pbid_of rid = x) fq))"
proof -
  from main_completed[OF assms] obtain ps ci info f where
    w: "write_rows info (keys enum (resolve_primer_names enum ps ov)) fq
             (header enum (resolve_primer_names enum ps ov)) = Inr f" and
    out: "written (main enum fq rs cc ov) = Some f" by blast
  let ?cols = "keys enum (resolve_primer_names enum ps ov)"
  let ?rows = "map (\<lambda>rid. (pbid_of rid, map (cell info (pbid_of rid)) ?cols)) fq"
  have "written (main enum fq rs cc ov) =
          Some (header enum (resolve_primer_names enum ps ov) @
                concat (map (\<lambda>(x, ns). row_line x ns) ?rows))"
    using out write_rows_completed[OF w] by (simp add: comp_def)
  moreover have "map fst ?rows = map pbid_of fq" by (simp add: comp_def)
  moreover have "\<forall>x. length (filter (\<lambda>row. fst row = x) ?rows) =
                length (filter (\<lambda>rid. pbid_of rid = x) fq)"
    by (simp add: filter_map comp_def)
  ultimately show ?thesis by blast
qed

theorem one_row_per_record_witness:
  "raised (main insertion_order [''PB.1.1|path1'', ''PB.1.1|path2''] read_stat_12 classify_12 None) = None \<and>
   (\<exists>names rows.
      written (main insertion_order [''PB.1.1|path1'', ''PB.1.1|path2''] read_stat_12 classify_12 None) =
        Some (header insertion_order names @ concat (map (\<lambda>(x, ns). row_line x ns) rows)) \<and>
      map fst rows = map pbid_of [''PB.1.1|path1'', ''PB.1.1|path2''] \<and>
      (\<forall>x. length (filter (\<lambda>row. fst row = x) rows) =
           length (filter (\<lambda>rid. pbid_of rid = x) [''PB.1.1|path1'', ''PB.1.1|path2''])))"
proof -
  have h: "raised (main insertion_order [''PB.1.1|path1'', ''PB.1.1|path2''] read_stat_12 classify_12 None) = None"
    by code_simp
  from h one_row_per_record[OF h] show ?thesis by (rule conjI)
qed

subsection \<open>The primer columns\<close>

text \<open>
  Claim C1 is not what the code does. \<^verbatim>\<open>main\<close> completes the mapping from primer to
  display label ("if primer names are not given, just use as is") and the command line
  documents \<^verbatim>\<open>--primer_names\<close> as the "text file showing primer sample names", but the
  header is joined from \<^verbatim>\<open>primer_names.keys()\<close>: the labels are never read. With the
  override of \<^verbatim>\<open>"2"\<close> to \<^verbatim>\<open>"SampleA"\<close> and the primers 2 and 3 observed, the header is
  \<^verbatim>\<open>id,2,3\<close> (\<^verbatim>\<open>id,3,2\<close> under the reverse enumeration), not \<^verbatim>\<open>id,SampleA,3\<close>, while
  the mapping holds the label.
\<close>

theorem header_prints_primer_ids_not_labels:
  "written (main insertion_order [''PB.1.1|path1''] read_stat_12 classify_12 (Some [(''2'', ''SampleA'')])) =
     Some ''id,2,3\<newline>PB.1.1,1,1\<newline>'' \<and>
   written (main rev [''PB.1.1|path1''] read_stat_12 classify_12 (Some [(''2'', ''SampleA'')])) =
     Some ''id,3,2\<newline>PB.1.1,1,1\<newline>'' \<and>
   names_after (main insertion_order [''PB.1.1|path1''] read_stat_12 classify_12 (Some [(''2'', ''SampleA'')])) =
     Some [(''2'', ''SampleA''), (''3'', ''3'')]"
  by code_simp




text \<open>
  Claim C10. When \<^verbatim>\<open>main\<close> gets past the two readers with an override mapping, the
  mapping it leaves to the caller is the override with one entry added for every
  observed primer the override lacked, mapping the primer to itself. Every entry that
  was there is still there, in its place and with its label; nothing else is added.
  It is the very mapping the columns are taken from.
\<close>

theorem override_is_completed_in_place:
  assumes "read_classify_csv cc = Inr (ps, ci)" and "read_read_stat rs ci = Inr info"
    and "is_enumeration enum"
  shows "\<exists>d'. names_after (main enum fq rs cc (Some d)) = Some d' \<and>
           d' = resolve_primer_names enum ps (Some d) \<and>
           take (length d) d' = d \<and>
           (\<forall>k. map_of d' k =
                  (case map_of d k of
                     Some v \<Rightarrow> Some v
                   | None \<Rightarrow> if k \<in> ps then Some k else None))"
proof -
  let ?d' = "resolve_primer_names enum ps (Some d)"
  have fin: "finite ps" using assms(1) by (rule read_classify_csv_finite)
  have after: "names_after (main enum fq rs cc (Some d)) = Some ?d'"
    using main_reads_ok[OF assms(1,2), of enum fq "Some d"]
    by (simp split: sum.splits prod.splits)
  have tk: "take (length d) ?d' = d" by (simp add: resolve_Some[OF assms(3)])
  have "\<forall>k. map_of ?d' k =
                  (case map_of d k of
                     Some v \<Rightarrow> Some v
                   | None \<Rightarrow> if k \<in> ps then Some k else None)"
    using resolve_labels[OF assms(3) fin, of "Some d"] by simp
  with after tk show ?thesis by blast
qed

theorem override_is_completed_in_place_witness:
  "is_enumeration rev \<and>
   names_after (main rev [''PB.1.1|path1''] read_stat_12 classify_12 (Some [(''2'', ''SampleA'')])) =
     Some [(''2'', ''SampleA''), (''3'', ''3'')] \<and>
   (\<exists>ps d'. names_after (main rev [''PB.1.1|path1''] read_stat_12 classify_12 (Some [(''2'', ''SampleA'')])) = Some d' \<and>
           d' = resolve_primer_names rev ps (Some [(''2'', ''SampleA'')]) \<and>
           take (length [(''2'', ''SampleA'')]) d' = [(''2'', ''SampleA'')] \<and>
           (\<forall>k. map_of d' k =
                  (case map_of [(''2'', ''SampleA'')] k of
                     Some v \<Rightarrow> Some v
                   | None \<Rightarrow> if k \<in> ps then Some k else None)))"
proof -
  have ev: "case read_classify_csv classify_12 of
          Inl e \<Rightarrow> False
        | Inr (ps, ci) \<Rightarrow> (case read_read_stat read_stat_12 ci of Inl e \<Rightarrow> False | Inr info \<Rightarrow> True)"
    by code_simp
  obtain ps ci where run: "read_classify_csv classify_12 = Inr (ps, ci)"
    using ev by (cases "read_classify_csv classify_12") (simp_all only: sum.case, blast)
  from ev have ev2: "case read_read_stat read_stat_12 ci of Inl e \<Rightarrow> False | Inr info \<Rightarrow> True"
    unfolding run by (simp only: sum.case prod.case)
  obtain info where rs: "read_read_stat read_stat_12 ci = Inr info"
    using ev2 by (cases "read_read_stat read_stat_12 ci") (simp_all only: sum.case)
  have h: "is_enumeration rev" by (simp add: is_enumeration_def)
  have a: "names_after (main rev [''PB.1.1|path1''] read_stat_12 classify_12 (Some [(''2'', ''SampleA'')])) =
     Some [(''2'', ''SampleA''), (''3'', ''3'')]" by code_simp
  from override_is_completed_in_place[OF run rs h, of "[''PB.1.1|path1'']" "[(''2'', ''SampleA'')]"]
  have b: "\<exists>ps d'. names_after (main rev [''PB.1.1|path1''] read_stat_12 classify_12 (Some [(''2'', ''SampleA'')])) = Some d' \<and>
           d' = resolve_primer_names rev ps (Some [(''2'', ''SampleA'')]) \<and>
           take (length [(''2'', ''SampleA'')]) d' = [(''2'', ''SampleA'')] \<and>
           (\<forall>k. map_of d' k =
                  (case map_of [(''2'', ''SampleA'')] k of
                     Some v \<Rightarrow> Some v
                   | None \<Rightarrow> if k \<in> ps then Some k else None))"
    by (rule exI[of _ ps])
  from h a b show ?thesis by (intro conjI)
qed

end
